theory Spec2Isabelle
  imports Main
begin

section \<open>Strings as Python 2 byte strings\<close>

text \<open>
  The program is Python 2 code over \<open>str\<close>. A string is a list of bytes. The
  operations below are the ones \<open>core.py\<close> calls: \<open>str.strip\<close>,
  \<open>str.startswith\<close>, \<open>str.lower\<close>, \<open>str.replace\<close> and
  \<open>file.readlines\<close>.
\<close>

definition NL :: char where
  "NL = CHR 0x0A"

definition QUOTE :: char where
  "QUOTE = CHR 0x27"

text \<open>The six bytes \<open>str.strip()\<close> removes: space, tab, newline, vertical tab,
  form feed, carriage return.\<close>

definition is_space :: "char \<Rightarrow> bool" where
  "is_space c \<longleftrightarrow> c = CHR 0x20 \<or> c = CHR 0x09 \<or> c = CHR 0x0A \<or> c = CHR 0x0B
     \<or> c = CHR 0x0C \<or> c = CHR 0x0D"

definition strip :: "string \<Rightarrow> string" where
  "strip s = rev (dropWhile is_space (rev (dropWhile is_space s)))"

definition startswith :: "string \<Rightarrow> string \<Rightarrow> bool" where
  "startswith s p \<longleftrightarrow> take (length p) s = p"

text \<open>\<open>str.lower()\<close> on a byte string: the letters A..Z (65..90) move to a..z.\<close>

definition lower_char :: "char \<Rightarrow> char" where
  "lower_char c =
     (let n = (of_char c :: nat) in if 65 \<le> n \<and> n \<le> 90 then char_of (n + 32) else c)"

definition lower :: "string \<Rightarrow> string" where
  "lower s = map lower_char s"

text \<open>\<open>s.replace(".in", ".txt")\<close>: every non-overlapping occurrence of \<open>.in\<close>,
  scanning from the left, is replaced.\<close>

fun replace_in_txt :: "string \<Rightarrow> string" where
  "replace_in_txt [] = []"
| "replace_in_txt (c # cs) =
     (if take 3 (c # cs) = ''.in'' then ''.txt'' @ replace_in_txt (drop 2 cs)
      else c # replace_in_txt cs)"

text \<open>\<open>f.readlines()\<close>: the content is cut after every newline; each line keeps
  its newline, and a last line without one is kept too.\<close>

fun readlines :: "string \<Rightarrow> string list" where
  "readlines [] = []"
| "readlines (c # cs) =
     (if c = NL then [c] # readlines cs
      else (case readlines cs of [] \<Rightarrow> [[c]] | l # ls \<Rightarrow> (c # l) # ls))"

section \<open>Errors and the file system\<close>

datatype error = IOError string | ResolverError string | SystemExit int

type_synonym filesystem = "string \<rightharpoonup> string"

section \<open>The line source: \<open>get_requirements\<close>\<close>

text \<open>The body of the generator's loop over the raw lines: strip, skip comments and
  empty lines, yield the rest.\<close>

fun yield_lines :: "string list \<Rightarrow> string list" where
  "yield_lines [] = []"
| "yield_lines (raw # rest) =
     (let line = strip raw in
      if startswith line ''#'' \<or> line = [] then yield_lines rest
      else line # yield_lines rest)"

definition get_requirements :: "filesystem \<Rightarrow> string \<Rightarrow> error + string list" where
  "get_requirements fs filename =
     (case fs filename of
        None \<Rightarrow> Inl (IOError filename)
      | Some content \<Rightarrow> Inr (yield_lines (readlines content)))"

section \<open>What pip hands back for one requirement line\<close>

record distribution =
  has_PKG_INFO :: bool
  has_METADATA :: bool

record package =
  name :: string
  installed_version :: string
  satisfied_by :: "distribution option"

record requirement_set =
  requirements :: "package list"
  successfully_installed :: "package list"

text \<open>
  \<open>get_requirement_set\<close>, \<open>prepare_files\<close> and \<open>install\<close> are pip's. They are
  one parameter of the model: given the \<open>upgrade\<close> flag, the state of the environment
  and the line, they raise or return the requirement set and the new environment.
\<close>

type_synonym 'env resolver = "bool \<Rightarrow> 'env \<Rightarrow> string \<Rightarrow> error + (requirement_set \<times> 'env)"

definition dep_string :: "package \<Rightarrow> string" where
  "dep_string p = name p @ ''=='' @ installed_version p"

definition has_metadata :: "package \<Rightarrow> bool" where
  "has_metadata p =
     (case satisfied_by p of
        None \<Rightarrow> False
      | Some d \<Rightarrow> has_PKG_INFO d \<or> has_METADATA d)"

definition collect_deps :: "requirement_set \<Rightarrow> string list" where
  "collect_deps rs =
     map dep_string (filter has_metadata (requirements rs))
     @ map dep_string (successfully_installed rs)"

section \<open>The engine state\<close>

text \<open>\<open>OrderedDict\<close>: assigning to a key that is present replaces its value where it
  stands; a new key goes to the end.\<close>

fun od_set :: "('k \<times> 'v) list \<Rightarrow> 'k \<Rightarrow> 'v \<Rightarrow> ('k \<times> 'v) list" where
  "od_set [] k v = [(k, v)]"
| "od_set ((k', v') # rest) k v =
     (if k' = k then (k, v) # rest else (k', v') # od_set rest k v)"

fun od_get :: "('k \<times> 'v) list \<Rightarrow> 'k \<Rightarrow> 'v option" where
  "od_get [] k = None"
| "od_get ((k', v') # rest) k = (if k' = k then Some v' else od_get rest k)"

text \<open>A stored dependency set is the list of its members in the order Python iterates
  the set.\<close>

record pundler =
  deps :: "(string \<times> string list) list"
  args :: "string list"
  upgrade :: bool

definition Pundler_init :: "bool \<Rightarrow> pundler" where
  "Pundler_init u = \<lparr> deps = [], args = [], upgrade = u \<rparr>"

text \<open>
  \<open>set(xs)\<close> followed by iteration: the members of \<open>xs\<close>, each once, in an order
  that CPython fixes from the hashes. The order is a parameter \<open>mkset\<close>; this
  predicate is all that is known of it.
\<close>

definition set_like :: "(string list \<Rightarrow> string list) \<Rightarrow> bool" where
  "set_like mkset \<longleftrightarrow> (\<forall>xs. set (mkset xs) = set xs \<and> distinct (mkset xs))"

section \<open>The loop of \<open>process_requirements\<close>\<close>

fun process_lines ::
  "(string list \<Rightarrow> string list) \<Rightarrow> 'env resolver \<Rightarrow> pundler \<Rightarrow> 'env \<Rightarrow> string list
     \<Rightarrow> error + (pundler \<times> 'env)" where
  "process_lines mkset resolver p env [] = Inr (p, env)"
| "process_lines mkset resolver p env (line # rest) =
     (if startswith line ''-'' then
        process_lines mkset resolver (p\<lparr>args := args p @ [line]\<rparr>) env rest
      else
        (let p1 = p\<lparr>deps := od_set (deps p) line []\<rparr> in
         case resolver (upgrade p) env line of
           Inl e \<Rightarrow> Inl e
         | Inr (rs, env') \<Rightarrow>
             process_lines mkset resolver
               (p1\<lparr>deps := od_set (deps p1) line (mkset ([] @ collect_deps rs))\<rparr>) env' rest))"

section \<open>The writer\<close>

text \<open>One constructor for each \<open>output.write\<close> call of the source.\<close>

datatype out_line =
    HeaderName string
  | HeaderFrom string
  | DirectiveLine string
  | Blank
  | RequirementHeader string
  | ActivePin string
  | SuppressedPin string

fun render_line :: "out_line \<Rightarrow> string" where
  "render_line (HeaderName f) = ''# '' @ f @ [NL]"
| "render_line (HeaderFrom f) =
     ''# this file generated from '' @ [QUOTE] @ f @ [QUOTE] @ '' by pundler:'' @ [NL, NL]"
| "render_line (DirectiveLine a) = a @ [NL]"
| "render_line Blank = [NL]"
| "render_line (RequirementHeader r) =
     ''# requirement '' @ [QUOTE] @ r @ [QUOTE] @ '' depends on:'' @ [NL]"
| "render_line (ActivePin d) = d @ [NL]"
| "render_line (SuppressedPin d) = ''#'' @ d @ [NL]"

definition render :: "out_line list \<Rightarrow> string" where
  "render ls = concat (map render_line ls)"

text \<open>The inner loop over one requirement's dependencies, threading \<open>package_set\<close>.\<close>

fun write_dependencies :: "string list \<Rightarrow> string set \<Rightarrow> out_line list \<times> string set" where
  "write_dependencies [] package_set = ([], package_set)"
| "write_dependencies (d # ds) package_set =
     (let dependency = lower d in
      if dependency \<notin> package_set then
        (let (out, s) = write_dependencies ds (insert dependency package_set)
         in (ActivePin dependency # out, s))
      else
        (let (out, s) = write_dependencies ds package_set
         in (SuppressedPin dependency # out, s)))"

text \<open>The outer loop: one block of lines for each key of \<open>deps\<close>, in its order.\<close>

fun write_requirements ::
  "(string \<times> string list) list \<Rightarrow> string set \<Rightarrow> out_line list list" where
  "write_requirements [] package_set = []"
| "write_requirements ((requested_package, ds) # rest) package_set =
     (let (out, s) = write_dependencies ds package_set
      in (RequirementHeader requested_package # out @ [Blank]) # write_requirements rest s)"

definition write_arguments :: "string list \<Rightarrow> out_line list" where
  "write_arguments as = concat (map (\<lambda>argument. [DirectiveLine argument, Blank]) as)"

definition lock_lines :: "pundler \<Rightarrow> string \<Rightarrow> string \<Rightarrow> out_line list" where
  "lock_lines p input_filename lock_filename =
     [HeaderName lock_filename, HeaderFrom input_filename]
     @ write_arguments (args p)
     @ concat (write_requirements (deps p) {})"

definition lock_path :: "string \<Rightarrow> string option \<Rightarrow> string" where
  "lock_path input_filename lock_filename =
     (case lock_filename of None \<Rightarrow> replace_in_txt input_filename | Some f \<Rightarrow> f)"

section \<open>\<open>process_requirements\<close> and \<open>install\<close>\<close>

text \<open>The result is the outcome and the file system as the call leaves it.
  \<open>open(lock_filename, "w")\<close> raises \<open>IOError\<close> when the path cannot be opened for
  writing (a directory that is missing, a file that is read-only): \<open>writable\<close> says which
  paths can be. The file is opened after the loop, and not at all when the loop has failed.\<close>

definition process_requirements ::
  "(string list \<Rightarrow> string list) \<Rightarrow> 'env resolver \<Rightarrow> (string \<Rightarrow> bool) \<Rightarrow> pundler \<Rightarrow> 'env
     \<Rightarrow> string \<Rightarrow> string option \<Rightarrow> filesystem \<Rightarrow> (error + (pundler \<times> 'env)) \<times> filesystem" where
  "process_requirements mkset resolver writable p env input_filename lock_filename fs =
     (case get_requirements fs input_filename of
        Inl e \<Rightarrow> (Inl e, fs)
      | Inr lines \<Rightarrow>
          (case process_lines mkset resolver p env lines of
             Inl e \<Rightarrow> (Inl e, fs)
           | Inr (p', env') \<Rightarrow>
               (let out = lock_path input_filename lock_filename in
                if writable out then
                  (Inr (p', env'), fs(out \<mapsto> render (lock_lines p' input_filename out)))
                else (Inl (IOError out), fs))))"

text \<open>The loop of \<open>install\<close>: a new \<open>Pundler\<close> for every input file; the first exception
  ends the loop.\<close>

fun install_loop ::
  "(string list \<Rightarrow> string list) \<Rightarrow> 'env resolver \<Rightarrow> (string \<Rightarrow> bool) \<Rightarrow> bool \<Rightarrow> string option
     \<Rightarrow> 'env \<Rightarrow> string list \<Rightarrow> filesystem \<Rightarrow> (error + 'env) \<times> filesystem" where
  "install_loop mkset resolver writable u output_filename env [] fs = (Inr env, fs)"
| "install_loop mkset resolver writable u output_filename env (input_filename # rest) fs =
     (case process_requirements mkset resolver writable (Pundler_init u) env input_filename
             output_filename fs of
        (Inl e, fs') \<Rightarrow> (Inl e, fs')
      | (Inr (p', env'), fs') \<Rightarrow>
          install_loop mkset resolver writable u output_filename env' rest fs')"

text \<open>\<open>install\<close>: \<open>input_filenames\<close> is what \<open>get_requirement_files\<close> has found (the file
  named on the command line, or what the globs match); with no file at all the program
  leaves through \<open>sys.exit(-2)\<close>.\<close>

definition install ::
  "(string list \<Rightarrow> string list) \<Rightarrow> 'env resolver \<Rightarrow> (string \<Rightarrow> bool) \<Rightarrow> bool \<Rightarrow> string option
     \<Rightarrow> 'env \<Rightarrow> string list \<Rightarrow> filesystem \<Rightarrow> (error + 'env) \<times> filesystem" where
  "install mkset resolver writable u output_filename env input_filenames fs =
     (if input_filenames = [] then (Inl (SystemExit (- 2)), fs)
      else install_loop mkset resolver writable u output_filename env input_filenames fs)"

section \<open>Vocabulary of the properties\<close>

text \<open>The members of \<open>xs\<close> that are not in \<open>seen\<close>, each where it occurs first.\<close>

fun first_seen :: "'a set \<Rightarrow> 'a list \<Rightarrow> 'a list" where
  "first_seen seen [] = []"
| "first_seen seen (x # xs) =
     (if x \<in> seen then first_seen seen xs else x # first_seen (insert x seen) xs)"

text \<open>The lowercased pins of all the dependency sets of a mapping.\<close>

definition pins_of :: "(string \<times> string list) list \<Rightarrow> string set" where
  "pins_of d = (\<Union>(k, ds) \<in> set d. lower ` set ds)"

text \<open>Reading an output from the top with the pins \<open>S\<close> already seen: every
  suppressed pin has been seen, as an active pin higher up or in \<open>S\<close>.\<close>

fun suppressed_ok :: "string set \<Rightarrow> out_line list \<Rightarrow> bool" where
  "suppressed_ok S [] = True"
| "suppressed_ok S (ActivePin x # rest) = suppressed_ok (insert x S) rest"
| "suppressed_ok S (SuppressedPin x # rest) = (x \<in> S \<and> suppressed_ok S rest)"
| "suppressed_ok S (l # rest) = suppressed_ok S rest"

text \<open>What a resolver call answers, the environment it leaves aside.\<close>

definition answer :: "error + (requirement_set \<times> 'env) \<Rightarrow> error + requirement_set" where
  "answer r = (case r of Inl e \<Rightarrow> Inl e | Inr (rs, env) \<Rightarrow> Inr rs)"

text \<open>An unchanged, deterministic resolver: its answer depends on the line (and the
  \<open>upgrade\<close> flag) alone, not on what earlier calls left in the environment.\<close>

definition unchanged_resolver :: "'env resolver \<Rightarrow> bool" where
  "unchanged_resolver resolver \<longleftrightarrow>
     (\<forall>u env env' line. answer (resolver u env line) = answer (resolver u env' line))"

section \<open>A small project, for concrete runs\<close>

text \<open>A file system in which every path can be opened for writing.\<close>

definition anywhere :: "string \<Rightarrow> bool" where
  "anywhere f = True"

definition pkg :: "string \<Rightarrow> string \<Rightarrow> distribution option \<Rightarrow> package" where
  "pkg n v d = \<lparr> name = n, installed_version = v, satisfied_by = d \<rparr>"

definition dist :: "bool \<Rightarrow> bool \<Rightarrow> distribution" where
  "dist a b = \<lparr> has_PKG_INFO = a, has_METADATA = b \<rparr>"

text \<open>The environment counts the calls. \<open>flask\<close> finds \<open>Flask\<close> installed with
  its metadata and \<open>six\<close> installed without any, and installs \<open>Werkzeug\<close>;
  \<open>requests\<close> finds \<open>requests\<close> and \<open>flask\<close>; \<open>broken\<close> fails.\<close>

definition example_resolver :: "nat resolver" where
  "example_resolver u env line =
     (if line = ''flask'' then
        Inr (\<lparr> requirements = [pkg ''Flask'' ''1.0'' (Some (dist False True)),
                                pkg ''six'' ''1.9'' (Some (dist False False))],
               successfully_installed = [pkg ''Werkzeug'' ''0.16'' None] \<rparr>, Suc env)
      else if line = ''requests'' then
        Inr (\<lparr> requirements = [pkg ''requests'' ''2.3'' (Some (dist True False)),
                                pkg ''flask'' ''1.0'' (Some (dist False True))],
               successfully_installed = [] \<rparr>, Suc env)
      else if line = ''broken'' then Inl (ResolverError line)
      else Inr (\<lparr> requirements = [], successfully_installed = [] \<rparr>, Suc env))"

text \<open>A resolver whose answer changes: the first call installs version 1 of the
  package the line names, every later call version 2.\<close>

definition stateful_resolver :: "nat resolver" where
  "stateful_resolver u env line =
     Inr (\<lparr> requirements = [],
            successfully_installed =
              [pkg line (if env = 0 then ''1'' else ''2'') None] \<rparr>, Suc env)"

definition example_fs :: filesystem where
  "example_fs =
     [''app.in'' \<mapsto> ''-f x'' @ [NL] @ ''# c'' @ [NL] @ [NL] @ ''flask'' @ [NL] @ ''requests'' @ [NL],
      ''lib.in'' \<mapsto> ''requests'' @ [NL],
      ''bad.in'' \<mapsto> ''flask'' @ [NL] @ ''broken'' @ [NL],
      ''bad.txt'' \<mapsto> ''old lock'' @ [NL],
      ''dup.in'' \<mapsto> ''a'' @ [NL] @ ''b'' @ [NL] @ ''a'' @ [NL]]"

text \<open>The engine state after \<open>app.in\<close> has been processed by a new \<open>Pundler\<close>.\<close>

definition example_used :: pundler where
  "example_used =
     \<lparr> deps = [(''flask'', [''Flask==1.0'', ''Werkzeug==0.16'']),
               (''requests'', [''requests==2.3'', ''flask==1.0''])],
       args = [''-f x''],
       upgrade = False \<rparr>"

text \<open>The engine state after the first line of \<open>bad.in\<close>.\<close>

definition example_flask :: pundler where
  "example_flask =
     \<lparr> deps = [(''flask'', [''Flask==1.0'', ''Werkzeug==0.16''])], args = [], upgrade = False \<rparr>"

text \<open>The engine states of \<open>dup.in\<close> under \<open>stateful_resolver\<close>: after the first two
  lines, and at the end.\<close>

definition dup_before :: pundler where
  "dup_before = \<lparr> deps = [(''a'', [''a==1'']), (''b'', [''b==2''])], args = [], upgrade = False \<rparr>"

definition dup_after :: pundler where
  "dup_after = \<lparr> deps = [(''a'', [''a==2'']), (''b'', [''b==2''])], args = [], upgrade = False \<rparr>"

text \<open>What \<open>example_resolver\<close> answers for \<open>flask\<close>.\<close>

definition flask_result :: requirement_set where
  "flask_result =
     \<lparr> requirements = [pkg ''Flask'' ''1.0'' (Some (dist False True)),
                       pkg ''six'' ''1.9'' (Some (dist False False))],
       successfully_installed = [pkg ''Werkzeug'' ''0.16'' None] \<rparr>"

text \<open>A resolver that fails when it is handed the comment of \<open>app.in\<close>, and answers as
  \<open>example_resolver\<close> on every other line.\<close>

definition comment_resolver :: "nat resolver" where
  "comment_resolver u env line =
     (if line = ''# c'' then Inl (ResolverError line) else example_resolver u env line)"

text \<open>The file system after \<open>app.in\<close> has been processed.\<close>

definition example_fs1 :: filesystem where
  "example_fs1 = example_fs(''app.txt'' \<mapsto> render (lock_lines example_used ''app.in'' ''app.txt''))"

text \<open>The engine state after \<open>lib.in\<close> has been processed by a new \<open>Pundler\<close>.\<close>

definition example_lib :: pundler where
  "example_lib =
     \<lparr> deps = [(''requests'', [''requests==2.3'', ''flask==1.0''])], args = [], upgrade = False \<rparr>"

section \<open>Facts about the string operations\<close>

lemma lower_char_idem: "lower_char (lower_char c) = lower_char c"
  unfolding lower_char_def Let_def
  by (auto simp: of_char_of [where ?'a = nat])

lemma lower_idem: "lower (lower s) = lower s"
  by (simp add: lower_def lower_char_idem)

lemma yield_lines_append: "yield_lines (a @ b) = yield_lines a @ yield_lines b"
  by (induction a) (simp_all add: Let_def)

lemma yield_lines_member:
  "x \<in> set (yield_lines rs) \<longleftrightarrow> x \<in> strip ` set rs \<and> x \<noteq> [] \<and> \<not> startswith x ''#''"
  by (induction rs) (auto simp: Let_def)

section \<open>Facts about the ordered mapping\<close>

lemma keys_od_set:
  "map fst (od_set d k v) = (if k \<in> fst ` set d then map fst d else map fst d @ [k])"
  by (induction d k v rule: od_set.induct) auto

lemma keyset_od_set: "fst ` set (od_set d k v) = insert k (fst ` set d)"
  by (induction d k v rule: od_set.induct) auto

lemma od_get_od_set: "od_get (od_set d k v) k' = (if k' = k then Some v else od_get d k')"
  by (induction d k v rule: od_set.induct) auto

lemma od_get_Some_iff:
  "distinct (map fst d) \<Longrightarrow> od_get d k = Some v \<longleftrightarrow> (k, v) \<in> set d"
  by (induction d k rule: od_get.induct) (auto simp: rev_image_eqI)

lemma distinct_od_set: "distinct (map fst d) \<Longrightarrow> distinct (map fst (od_set d k v))"
  by (simp add: keys_od_set)

section \<open>Facts about the loop\<close>

lemma process_lines_append:
  "process_lines mkset resolver p env (a @ b) =
     (case process_lines mkset resolver p env a of
        Inl e \<Rightarrow> Inl e
      | Inr (p', env') \<Rightarrow> process_lines mkset resolver p' env' b)"
  by (induction a arbitrary: p env) (auto simp: Let_def split: sum.splits prod.splits)

lemma process_lines_upgrade:
  "process_lines mkset resolver p env ls = Inr (p', env') \<Longrightarrow> upgrade p' = upgrade p"
  by (induction ls arbitrary: p env) (auto simp: Let_def split: sum.splits prod.splits if_splits)

lemma process_lines_args:
  "process_lines mkset resolver p env ls = Inr (p', env') \<Longrightarrow>
     args p' = args p @ filter (\<lambda>l. startswith l ''-'') ls"
  by (induction ls arbitrary: p env)
     (auto simp: Let_def split: sum.splits prod.splits if_splits)

lemma process_lines_keys:
  "process_lines mkset resolver p env ls = Inr (p', env') \<Longrightarrow>
     map fst (deps p') =
       map fst (deps p)
       @ first_seen (fst ` set (deps p)) (filter (\<lambda>l. \<not> startswith l ''-'') ls)"
proof (induction ls arbitrary: p env)
  case Nil
  then show ?case by simp
next
  case (Cons l ls)
  show ?case
  proof (cases "startswith l ''-''")
    case True
    with Cons.prems
    have "process_lines mkset resolver (p\<lparr>args := args p @ [l]\<rparr>) env ls = Inr (p', env')"
      by simp
    from Cons.IH [OF this] True show ?thesis by simp
  next
    case False
    with Cons.prems obtain rs env1 where
      rest: "process_lines mkset resolver
               (p\<lparr>deps := od_set (od_set (deps p) l []) l (mkset (collect_deps rs))\<rparr>) env1 ls
             = Inr (p', env')"
      by (auto simp: Let_def split: sum.splits prod.splits)
    have k: "map fst (od_set (od_set (deps p) l []) l (mkset (collect_deps rs))) =
             (if l \<in> fst ` set (deps p) then map fst (deps p) else map fst (deps p) @ [l])"
      by (simp add: keys_od_set keyset_od_set)
    have s: "fst ` set (od_set (od_set (deps p) l []) l (mkset (collect_deps rs))) =
             insert l (fst ` set (deps p))"
      by (simp add: keyset_od_set)
    from Cons.IH [OF rest] False show ?thesis
      by (simp add: k s insert_absorb)
  qed
qed

section \<open>Facts about the writer\<close>

lemma pins_of_simps [simp]:
  "pins_of [] = {}"
  "pins_of ((k, ds) # rest) = lower ` set ds \<union> pins_of rest"
  "pins_of (a @ b) = pins_of a \<union> pins_of b"
  by (auto simp: pins_of_def)

lemma wd_Cons:
  "write_dependencies (d # ds) S =
     (if lower d \<notin> S
      then (ActivePin (lower d) # fst (write_dependencies ds (insert (lower d) S)),
            snd (write_dependencies ds (insert (lower d) S)))
      else (SuppressedPin (lower d) # fst (write_dependencies ds S),
            snd (write_dependencies ds S)))"
  by (simp add: Let_def case_prod_beta)

lemma wd_seen: "snd (write_dependencies ds S) = S \<union> lower ` set ds"
  by (induction ds arbitrary: S) (auto simp: wd_Cons simp del: write_dependencies.simps(2))

lemma wd_count:
  "count_list (fst (write_dependencies ds S)) (ActivePin x) =
     (if x \<in> lower ` set ds \<and> x \<notin> S then 1 else 0)"
  by (induction ds arbitrary: S) (auto simp: wd_Cons simp del: write_dependencies.simps(2))

lemma wd_active_iff:
  "ActivePin x \<in> set (fst (write_dependencies ds S)) \<longleftrightarrow> x \<in> lower ` set ds \<and> x \<notin> S"
  using wd_count [of ds S x] count_list_0_iff [of "fst (write_dependencies ds S)" "ActivePin x"]
  by (auto split: if_splits)

lemma wd_suppressed:
  "x \<in> lower ` set ds \<Longrightarrow> x \<in> S \<Longrightarrow> SuppressedPin x \<in> set (fst (write_dependencies ds S))"
  by (induction ds arbitrary: S) (auto simp: wd_Cons simp del: write_dependencies.simps(2))

lemma wd_only_pins:
  "l \<in> set (fst (write_dependencies ds S)) \<Longrightarrow>
     \<exists>d \<in> set ds. l = ActivePin (lower d) \<or> l = SuppressedPin (lower d)"
  by (induction ds arbitrary: S)
     (auto simp: wd_Cons simp del: write_dependencies.simps(2) split: if_splits)

lemma wr_length: "length (write_requirements d S) = length d"
  by (induction d S rule: write_requirements.induct) (auto split: prod.splits)

lemma wr_append:
  "write_requirements (a @ b) S = write_requirements a S @ write_requirements b (S \<union> pins_of a)"
proof (induction a arbitrary: S)
  case Nil
  then show ?case by simp
next
  case (Cons kd a)
  obtain k ds where kd: "kd = (k, ds)" by (cases kd)
  obtain out s where w: "write_dependencies ds S = (out, s)" by (cases "write_dependencies ds S")
  have s: "s = S \<union> lower ` set ds" using wd_seen [of ds S] w by simp
  show ?case using Cons.IH [of s] by (simp add: kd w s Un_assoc)
qed

lemma wr_nth:
  assumes "i < length d"
  shows "write_requirements d S ! i =
           RequirementHeader (fst (d ! i))
           # fst (write_dependencies (snd (d ! i)) (S \<union> pins_of (take i d))) @ [Blank]"
proof -
  have d: "d = take i d @ d ! i # drop (Suc i) d"
    using assms by (simp add: id_take_nth_drop)
  have "write_requirements d S ! i =
        (write_requirements (take i d) S
         @ write_requirements (d ! i # drop (Suc i) d) (S \<union> pins_of (take i d))) ! i"
    using wr_append [of "take i d" "d ! i # drop (Suc i) d" S] d by simp
  also have "\<dots> = write_requirements (d ! i # drop (Suc i) d) (S \<union> pins_of (take i d)) ! 0"
    using assms by (simp add: nth_append wr_length)
  also have "\<dots> = RequirementHeader (fst (d ! i))
           # fst (write_dependencies (snd (d ! i)) (S \<union> pins_of (take i d))) @ [Blank]"
    by (cases "d ! i") (simp split: prod.splits)
  finally show ?thesis .
qed

lemma wr_count:
  "count_list (concat (write_requirements d S)) (ActivePin x) =
     (if x \<in> pins_of d \<and> x \<notin> S then 1 else 0)"
proof (induction d arbitrary: S)
  case Nil
  then show ?case by simp
next
  case (Cons kd d)
  obtain k ds where kd: "kd = (k, ds)" by (cases kd)
  obtain out s where w: "write_dependencies ds S = (out, s)" by (cases "write_dependencies ds S")
  have s: "s = S \<union> lower ` set ds" using wd_seen [of ds S] w by simp
  have c: "count_list out (ActivePin x) = (if x \<in> lower ` set ds \<and> x \<notin> S then 1 else 0)"
    using wd_count [of ds S x] w by simp
  show ?case using Cons.IH [of s] by (auto simp: kd w s c)
qed

lemma suppressed_ok_append:
  "suppressed_ok S (a @ b) \<longleftrightarrow>
     suppressed_ok S a \<and> suppressed_ok (S \<union> {x. ActivePin x \<in> set a}) b"
proof (induction S a rule: suppressed_ok.induct)
  case (2 S x rest)
  have "insert x S \<union> {y. ActivePin y \<in> set rest} =
        S \<union> {y. ActivePin y \<in> set (ActivePin x # rest)}"
    by auto
  with 2 show ?case by simp
qed simp_all

lemma wd_suppressed_ok: "suppressed_ok S (fst (write_dependencies ds S))"
  by (induction ds arbitrary: S) (auto simp: wd_Cons simp del: write_dependencies.simps(2))

lemma wr_suppressed_ok: "suppressed_ok S (concat (write_requirements d S))"
proof (induction d arbitrary: S)
  case Nil
  then show ?case by simp
next
  case (Cons kd d)
  obtain k ds where kd: "kd = (k, ds)" by (cases kd)
  obtain out s where w: "write_dependencies ds S = (out, s)" by (cases "write_dependencies ds S")
  have s: "s = S \<union> lower ` set ds" using wd_seen [of ds S] w by simp
  have a: "S \<union> {x. ActivePin x \<in> set out} = s"
    using wd_active_iff [of _ ds S] w s by auto
  have o: "suppressed_ok S out" using wd_suppressed_ok [of S ds] w by simp
  show ?case using Cons.IH [of s] o a
    by (simp add: kd w suppressed_ok_append)
qed

lemma wr_heads: "map hd (write_requirements d S) = map (\<lambda>kd. RequirementHeader (fst kd)) d"
  by (induction d S rule: write_requirements.induct) (auto split: prod.splits)

lemma wr_block_lines:
  "b \<in> set (write_requirements d S) \<Longrightarrow> l \<in> set b \<Longrightarrow>
     l = Blank \<or> (\<exists>k \<in> fst ` set d. l = RequirementHeader k)
     \<or> (\<exists>x \<in> pins_of d. l = ActivePin x \<or> l = SuppressedPin x)"
proof (induction d arbitrary: S)
  case Nil
  then show ?case by simp
next
  case (Cons kd d)
  obtain k ds where kd: "kd = (k, ds)" by (cases kd)
  obtain out s where w: "write_dependencies ds S = (out, s)" by (cases "write_dependencies ds S")
  from Cons.prems(1)
  have "b = RequirementHeader k # out @ [Blank] \<or> b \<in> set (write_requirements d s)"
    by (simp add: kd w)
  then show ?case
  proof
    assume b: "b = RequirementHeader k # out @ [Blank]"
    show ?thesis
    proof (cases "l \<in> set out")
      case True
      then have "\<exists>d \<in> set ds. l = ActivePin (lower d) \<or> l = SuppressedPin (lower d)"
        using wd_only_pins [of l ds S] w by simp
      then show ?thesis by (auto simp: kd)
    next
      case False
      with b Cons.prems(2) show ?thesis by (auto simp: kd)
    qed
  next
    assume "b \<in> set (write_requirements d s)"
    from Cons.IH [OF this Cons.prems(2)] show ?thesis by (auto simp: kd)
  qed
qed

lemma lock_lines_pins:
  assumes "ActivePin x \<in> set (lock_lines p inp out) \<or> SuppressedPin x \<in> set (lock_lines p inp out)"
  shows "x \<in> pins_of (deps p)"
proof -
  from assms obtain b l where b: "b \<in> set (write_requirements (deps p) {})" and l: "l \<in> set b"
    and lx: "l = ActivePin x \<or> l = SuppressedPin x"
    by (auto simp: lock_lines_def write_arguments_def)
  from wr_block_lines [OF b l] lx show ?thesis by auto
qed

section \<open>More facts about the loop\<close>

lemma count_list_distinct:
  "distinct xs \<Longrightarrow> count_list xs x = (if x \<in> set xs then 1 else 0)"
  by (induction xs) auto

lemma first_seen_subset: "set (first_seen S xs) \<subseteq> set xs"
  by (induction xs arbitrary: S) auto

lemma process_lines_cong:
  "(\<And>l u e. l \<in> set ls \<Longrightarrow> \<not> startswith l ''-'' \<Longrightarrow> r u e l = r' u e l) \<Longrightarrow>
     process_lines mkset r p env ls = process_lines mkset r' p env ls"
proof (induction ls arbitrary: p env)
  case Nil
  then show ?case by simp
next
  case (Cons l ls)
  have ih: "\<And>p env. process_lines mkset r p env ls = process_lines mkset r' p env ls"
    using Cons.IH Cons.prems by simp
  show ?case
  proof (cases "startswith l ''-''")
    case True
    then show ?thesis by (simp add: ih)
  next
    case False
    then have "r (upgrade p) env l = r' (upgrade p) env l"
      using Cons.prems by simp
    with False show ?thesis by (simp add: ih Let_def split: sum.splits prod.splits)
  qed
qed

lemma process_lines_mentions:
  assumes "process_lines mkset resolver p env ls = Inr (p', env')"
  shows "set (args p') \<subseteq> set (args p) \<union> set ls"
    and "fst ` set (deps p') \<subseteq> fst ` set (deps p) \<union> set ls"
proof -
  show "set (args p') \<subseteq> set (args p) \<union> set ls"
    using process_lines_args [OF assms] by auto
  have "set (first_seen (fst ` set (deps p)) (filter (\<lambda>l. \<not> startswith l ''-'') ls)) \<subseteq> set ls"
    using first_seen_subset [of "fst ` set (deps p)" "filter (\<lambda>l. \<not> startswith l ''-'') ls"]
    by auto
  moreover have "fst ` set (deps p') = set (map fst (deps p'))" by simp
  ultimately show "fst ` set (deps p') \<subseteq> fst ` set (deps p) \<union> set ls"
    unfolding process_lines_keys [OF assms] by auto
qed

lemma process_lines_distinct:
  "process_lines mkset resolver p env ls = Inr (p', env') \<Longrightarrow>
     distinct (map fst (deps p)) \<Longrightarrow> distinct (map fst (deps p'))"
proof (induction ls arbitrary: p env)
  case Nil
  then show ?case by simp
next
  case (Cons l ls)
  show ?case
  proof (cases "startswith l ''-''")
    case True
    with Cons.prems(1)
    have "process_lines mkset resolver (p\<lparr>args := args p @ [l]\<rparr>) env ls = Inr (p', env')"
      by simp
    from Cons.IH [OF this] Cons.prems(2) show ?thesis by simp
  next
    case False
    with Cons.prems(1) obtain rs env1 where
      rest: "process_lines mkset resolver
               (p\<lparr>deps := od_set (od_set (deps p) l []) l (mkset (collect_deps rs))\<rparr>) env1 ls
             = Inr (p', env')"
      by (auto simp: Let_def split: sum.splits prod.splits)
    from Cons.IH [OF rest] Cons.prems(2) show ?thesis
      by (simp add: distinct_od_set)
  qed
qed

lemma process_lines_od_get_other:
  "process_lines mkset resolver p env ls = Inr (p', env') \<Longrightarrow> k \<notin> set ls \<Longrightarrow>
     od_get (deps p') k = od_get (deps p) k"
proof (induction ls arbitrary: p env)
  case Nil
  then show ?case by simp
next
  case (Cons l ls)
  show ?case
  proof (cases "startswith l ''-''")
    case True
    with Cons.prems(1)
    have "process_lines mkset resolver (p\<lparr>args := args p @ [l]\<rparr>) env ls = Inr (p', env')"
      by simp
    from Cons.IH [OF this] Cons.prems(2) show ?thesis by simp
  next
    case False
    with Cons.prems(1) obtain rs env1 where
      rest: "process_lines mkset resolver
               (p\<lparr>deps := od_set (od_set (deps p) l []) l (mkset (collect_deps rs))\<rparr>) env1 ls
             = Inr (p', env')"
      by (auto simp: Let_def split: sum.splits prod.splits)
    from Cons.IH [OF rest] Cons.prems(2) show ?thesis
      by (simp add: od_get_od_set)
  qed
qed

lemma process_lines_single:
  assumes "\<not> startswith line ''-''" and "resolver (upgrade p) env line = Inr (rs, env')"
  shows "process_lines mkset resolver p env [line] =
           Inr (p\<lparr>deps := od_set (od_set (deps p) line []) line (mkset (collect_deps rs))\<rparr>, env')"
  using assms by (simp add: Let_def)

lemma set_collect_deps:
  "set (collect_deps rs) =
     {dep_string pk | pk. pk \<in> set (requirements rs)
        \<and> (\<exists>d. satisfied_by pk = Some d \<and> (has_PKG_INFO d \<or> has_METADATA d))}
     \<union> {dep_string pk | pk. pk \<in> set (successfully_installed rs)}"
  by (auto simp: collect_deps_def has_metadata_def split: option.splits)

section \<open>The concrete runs\<close>

lemma anywhere [simp]: "anywhere f"
  by (simp add: anywhere_def)

lemma set_like_remdups: "set_like remdups"
  by (simp add: set_like_def)

lemma example_lines:
  "get_requirements example_fs ''app.in'' = Inr [''-f x'', ''flask'', ''requests'']"
  by code_simp

lemma example_loop:
  "process_lines remdups example_resolver (Pundler_init False) 0
     [''-f x'', ''flask'', ''requests''] = Inr (example_used, 2)"
  by code_simp

lemma example_run:
  "process_requirements remdups example_resolver anywhere (Pundler_init False) 0 ''app.in'' None example_fs
     = (Inr (example_used, 2),
        snd (process_requirements remdups example_resolver anywhere (Pundler_init False) 0 ''app.in'' None
               example_fs))"
  unfolding process_requirements_def example_lines
  by (simp add: example_loop Let_def del: process_lines.simps)


section \<open>More facts about the lock file\<close>

lemma process_requirements_Inr:
  assumes "process_requirements mkset resolver writable p env inp lf fs = (Inr (p', env'), fs')"
  shows "\<exists>lines. get_requirements fs inp = Inr lines
           \<and> process_lines mkset resolver p env lines = Inr (p', env')"
    and "fs' = fs(lock_path inp lf \<mapsto> render (lock_lines p' inp (lock_path inp lf)))"
    and "writable (lock_path inp lf)"
  using assms
  by (auto simp: process_requirements_def Let_def split: sum.splits prod.splits if_splits)

lemma pins_of_take:
  "x \<in> pins_of (take i d) \<longleftrightarrow> (\<exists>j < i. j < length d \<and> x \<in> lower ` set (snd (d ! j)))"
proof
  assume "x \<in> pins_of (take i d)"
  then obtain k ds where m: "(k, ds) \<in> set (take i d)" and x: "x \<in> lower ` set ds"
    by (auto simp: pins_of_def)
  from m obtain j where "j < length (take i d)" and "take i d ! j = (k, ds)"
    by (auto simp: in_set_conv_nth)
  then have "j < i" "j < length d" "d ! j = (k, ds)" by simp_all
  with x show "\<exists>j < i. j < length d \<and> x \<in> lower ` set (snd (d ! j))" by auto
next
  assume "\<exists>j < i. j < length d \<and> x \<in> lower ` set (snd (d ! j))"
  then obtain j where j: "j < i" "j < length d" and x: "x \<in> lower ` set (snd (d ! j))" by blast
  from j have "take i d ! j \<in> set (take i d)" by (intro nth_mem) simp
  with j have "d ! j \<in> set (take i d)" by simp
  with x show "x \<in> pins_of (take i d)"
    by (cases "d ! j") (auto simp: pins_of_def)
qed

lemma block_hd:
  "i < length d \<Longrightarrow> hd (write_requirements d S ! i) = RequirementHeader (fst (d ! i))"
  by (simp add: wr_nth)

lemma block_active:
  "i < length d \<Longrightarrow>
     ActivePin x \<in> set (write_requirements d {} ! i)
       \<longleftrightarrow> x \<in> lower ` set (snd (d ! i)) \<and> x \<notin> pins_of (take i d)"
  by (simp add: wr_nth wd_active_iff)

lemma block_suppressed:
  "i < length d \<Longrightarrow> x \<in> lower ` set (snd (d ! i)) \<Longrightarrow> x \<in> pins_of (take i d) \<Longrightarrow>
     SuppressedPin x \<in> set (write_requirements d {} ! i)"
  by (simp add: wr_nth wd_suppressed)

lemma write_arguments_count: "count_list (write_arguments as) (ActivePin x) = 0"
  by (induction as) (simp_all add: write_arguments_def)

lemma lock_lines_count:
  "count_list (lock_lines p inp out) (ActivePin x) = (if x \<in> pins_of (deps p) then 1 else 0)"
  by (simp add: lock_lines_def write_arguments_count wr_count)

lemma lock_lines_lower:
  assumes "ActivePin x \<in> set (lock_lines p inp out) \<or> SuppressedPin x \<in> set (lock_lines p inp out)"
  shows "lower x = x"
proof -
  from lock_lines_pins [OF assms] obtain d where "x = lower d"
    by (auto simp: pins_of_def)
  then show ?thesis by (simp add: lower_idem)
qed

lemma example_lock_lines:
  "lock_lines example_used ''app.in'' ''app.txt'' =
     [HeaderName ''app.txt'', HeaderFrom ''app.in'', DirectiveLine ''-f x'', Blank,
      RequirementHeader ''flask'', ActivePin ''flask==1.0'', ActivePin ''werkzeug==0.16'', Blank,
      RequirementHeader ''requests'', ActivePin ''requests==2.3'', SuppressedPin ''flask==1.0'',
      Blank]"
  by code_simp

section \<open>Runs that follow a run\<close>

lemma process_lines_env:
  assumes "unchanged_resolver resolver"
  shows "map_sum id fst (process_lines mkset resolver p env ls)
       = map_sum id fst (process_lines mkset resolver p env' ls)"
proof (induction ls arbitrary: p env env')
  case Nil
  then show ?case by simp
next
  case (Cons l ls)
  show ?case
  proof (cases "startswith l ''-''")
    case True
    then show ?thesis using Cons.IH by simp
  next
    case False
    have a: "answer (resolver (upgrade p) env l) = answer (resolver (upgrade p) env' l)"
      using assms by (simp add: unchanged_resolver_def)
    show ?thesis
    proof (cases "resolver (upgrade p) env l")
      case (Inl e)
      with a obtain e' where "resolver (upgrade p) env' l = Inl e'" and "e' = e"
        by (cases "resolver (upgrade p) env' l") (auto simp: answer_def split: prod.splits)
      with Inl False show ?thesis by (simp add: Let_def)
    next
      case (Inr r)
      obtain rs e1 where r: "r = (rs, e1)" by (cases r)
      from a Inr r obtain e2 where r': "resolver (upgrade p) env' l = Inr (rs, e2)"
        by (cases "resolver (upgrade p) env' l") (auto simp: answer_def split: prod.splits)
      show ?thesis
        using False Inr r r' Cons.IH by (simp add: Let_def)
    qed
  qed
qed

lemma process_lines_rerun:
  assumes "unchanged_resolver resolver"
    and "process_lines mkset resolver p env ls = Inr (p', env1)"
  shows "\<exists>env2. process_lines mkset resolver p env' ls = Inr (p', env2)"
proof -
  have "map_sum id fst (process_lines mkset resolver p env' ls) = Inr p'"
    using process_lines_env [OF assms(1), of mkset p env' ls env] assms(2) by simp
  then show ?thesis
    by (cases "process_lines mkset resolver p env' ls") auto
qed

lemma example_run1:
  "process_requirements remdups example_resolver anywhere (Pundler_init False) 0 ''app.in'' None example_fs
     = (Inr (example_used, 2), example_fs1)"
  unfolding process_requirements_def example_lines
  by (simp add: example_loop Let_def lock_path_def example_fs1_def del: process_lines.simps)

lemma lib_lines: "get_requirements example_fs1 ''lib.in'' = Inr [''requests'']"
proof -
  have "example_fs1 ''lib.in'' = example_fs ''lib.in''"
    by (simp add: example_fs1_def)
  then have "get_requirements example_fs1 ''lib.in'' = get_requirements example_fs ''lib.in''"
    by (simp add: get_requirements_def)
  also have "\<dots> = Inr [''requests'']"
    by code_simp
  finally show ?thesis .
qed

lemma lib_loop_used:
  "process_lines remdups example_resolver example_used 2 [''requests''] = Inr (example_used, 3)"
  by code_simp

lemma lib_loop_new:
  "process_lines remdups example_resolver (Pundler_init False) 2 [''requests'']
     = Inr (example_lib, 3)"
  by code_simp

lemma lib_lock_used:
  "lock_lines example_used ''lib.in'' ''lib.txt'' =
     [HeaderName ''lib.txt'', HeaderFrom ''lib.in'', DirectiveLine ''-f x'', Blank,
      RequirementHeader ''flask'', ActivePin ''flask==1.0'', ActivePin ''werkzeug==0.16'', Blank,
      RequirementHeader ''requests'', ActivePin ''requests==2.3'', SuppressedPin ''flask==1.0'',
      Blank]"
  by code_simp

lemma lib_lock_new:
  "lock_lines example_lib ''lib.in'' ''lib.txt'' =
     [HeaderName ''lib.txt'', HeaderFrom ''lib.in'',
      RequirementHeader ''requests'', ActivePin ''requests==2.3'', ActivePin ''flask==1.0'',
      Blank]"
  by code_simp

lemma lib_run_used:
  "process_requirements remdups example_resolver anywhere example_used 2 ''lib.in'' None example_fs1
     = (Inr (example_used, 3),
        example_fs1(''lib.txt'' \<mapsto> render (lock_lines example_used ''lib.in'' ''lib.txt'')))"
  unfolding process_requirements_def lib_lines
  by (simp add: lib_loop_used Let_def lock_path_def del: process_lines.simps)

lemma lib_run_new:
  "process_requirements remdups example_resolver anywhere (Pundler_init False) 2 ''lib.in'' None example_fs1
     = (Inr (example_lib, 3),
        example_fs1(''lib.txt'' \<mapsto> render (lock_lines example_lib ''lib.in'' ''lib.txt'')))"
  unfolding process_requirements_def lib_lines
  by (simp add: lib_loop_new Let_def lock_path_def del: process_lines.simps)

lemma write_arguments_suppressed_ok:
  "suppressed_ok S (write_arguments as @ rest) = suppressed_ok S rest"
  by (induction as) (simp_all add: write_arguments_def)

lemma lock_lines_suppressed_ok: "suppressed_ok {} (lock_lines p inp out)"
  by (simp add: lock_lines_def write_arguments_suppressed_ok wr_suppressed_ok)

section \<open>The output path\<close>

text \<open>
  C3: when no lock file name is given, the lock path is said to be the input path with a trailing
  \<open>.in\<close> replaced by \<open>.txt\<close>, and the input path itself when it has no such suffix.  The
  source calls \<open>input_filename.replace(".in", ".txt")\<close>, which rewrites every occurrence of
  \<open>.in\<close>, wherever it stands: a directory named \<open>conf.index\<close> is renamed in the lock path,
  and \<open>requirements.ini\<close>, which has no \<open>.in\<close> suffix, is not passed through unchanged.
\<close>

theorem lock_path_replaces_every_dot_in:
  "lock_path ''conf.index/requirements.in'' None = ''conf.txtdex/requirements.txt''
   \<and> lock_path ''requirements.ini'' None = ''requirements.txti''"
  by (simp add: lock_path_def)

section \<open>Failure of the resolver\<close>

text \<open>
  C2: if the resolver fails on a requirement line of the input file, the run of
  \<open>process_requirements\<close> ends with that failure and the file system is the one it started
  with: no lock file is created, and a lock file that was there keeps its bytes.  The lines
  before the failing one have been processed with success; the failing line is not a directive.
\<close>

theorem resolver_failure_writes_nothing:
  assumes "get_requirements fs input_filename = Inr (pre @ line # post)"
    and "process_lines mkset resolver p env pre = Inr (p1, env1)"
    and "\<not> startswith line ''-''"
    and "resolver (upgrade p1) env1 line = Inl e"
  shows "process_requirements mkset resolver writable p env input_filename lock_filename fs = (Inl e, fs)"
  using assms by (simp add: process_requirements_def process_lines_append Let_def)

theorem resolver_failure_writes_nothing_witness:
  "get_requirements example_fs ''bad.in'' = Inr ([''flask''] @ ''broken'' # [])
   \<and> process_lines remdups example_resolver (Pundler_init False) 0 [''flask'']
       = Inr (example_flask, 1)
   \<and> \<not> startswith ''broken'' ''-''
   \<and> example_resolver False 1 ''broken'' = Inl (ResolverError ''broken'')
   \<and> process_requirements remdups example_resolver anywhere (Pundler_init False) 0 ''bad.in'' None example_fs
       = (Inl (ResolverError ''broken''), example_fs)
   \<and> lock_path ''bad.in'' None = ''bad.txt''
   \<and> example_fs ''bad.txt'' = Some (''old lock'' @ [NL])"
proof -
  have h1: "get_requirements example_fs ''bad.in'' = Inr ([''flask''] @ ''broken'' # [])"
    by code_simp
  have h2: "process_lines remdups example_resolver (Pundler_init False) 0 [''flask'']
       = Inr (example_flask, 1)"
    by code_simp
  have h3: "\<not> startswith ''broken'' ''-''"
    by (simp add: startswith_def)
  have h4: "example_resolver False 1 ''broken'' = Inl (ResolverError ''broken'')"
    by (simp add: example_resolver_def)
  have h4': "example_resolver (upgrade example_flask) 1 ''broken'' = Inl (ResolverError ''broken'')"
    using h4 by (simp add: example_flask_def)
  have c: "process_requirements remdups example_resolver anywhere (Pundler_init False) 0 ''bad.in'' None
             example_fs = (Inl (ResolverError ''broken''), example_fs)"
    using h1 h2 h3 h4' by (rule resolver_failure_writes_nothing)
  have h5: "lock_path ''bad.in'' None = ''bad.txt''"
    by (simp add: lock_path_def)
  have h6: "example_fs ''bad.txt'' = Some (''old lock'' @ [NL])"
    by (simp add: example_fs_def)
  show ?thesis
    by (rule conjI [OF h1 conjI [OF h2 conjI [OF h3 conjI [OF h4 conjI [OF c conjI [OF h5 h6]]]]]])
qed


section \<open>Skipped lines\<close>

text \<open>
  C9: a line of the input file that is empty once trimmed, or whose trimmed form starts with
  \<open>#\<close>, is skipped by \<open>get_requirements\<close>: the lines it yields are those of the rest of the
  file.  A run of \<open>process_requirements\<close> on a new \<open>Pundler\<close> records it neither among the
  directives nor among the requirements, and the resolver is never called on it: a resolver
  that differs only on that line gives the same run.
\<close>

theorem skipped_lines_yield_nothing:
  assumes "fs input_filename = Some content"
    and "readlines content = pre @ raw # post"
    and "strip raw = [] \<or> startswith (strip raw) ''#''"
  shows "get_requirements fs input_filename = Inr (yield_lines pre @ yield_lines post)
    \<and> (\<forall>mkset (resolver :: 'env resolver) u env lock_filename p' env' fs'.
          process_requirements mkset resolver writable (Pundler_init u) env input_filename lock_filename fs
            = (Inr (p', env'), fs')
          \<longrightarrow> strip raw \<notin> set (args p') \<and> strip raw \<notin> fst ` set (deps p'))
    \<and> (\<forall>mkset (resolver :: 'env resolver) resolver' p env lock_filename.
          (\<forall>u e l. l \<noteq> strip raw \<longrightarrow> resolver u e l = resolver' u e l)
          \<longrightarrow> process_requirements mkset resolver writable p env input_filename lock_filename fs
              = process_requirements mkset resolver' writable p env input_filename lock_filename fs)"
proof -
  have skip: "yield_lines [raw] = []"
    using assms(3) by (auto simp: Let_def)
  have "yield_lines (pre @ [raw] @ post) = yield_lines pre @ yield_lines post"
    unfolding yield_lines_append skip by simp
  then have lines: "get_requirements fs input_filename = Inr (yield_lines pre @ yield_lines post)"
    using assms(1,2) by (simp add: get_requirements_def del: yield_lines.simps)
  have notin: "strip raw \<notin> set (yield_lines pre @ yield_lines post)"
    using assms(3) by (auto simp: yield_lines_member)
  have a: "strip raw \<notin> set (args p') \<and> strip raw \<notin> fst ` set (deps p')"
    if "process_requirements mkset resolver writable (Pundler_init u) env input_filename lock_filename fs
            = (Inr (p', env'), fs')"
    for mkset and resolver :: "'env resolver" and u env lock_filename p' env' fs'
  proof -
    from that lines
    have run: "process_lines mkset resolver (Pundler_init u) env (yield_lines pre @ yield_lines post)
               = Inr (p', env')"
      by (auto simp: process_requirements_def Let_def split: sum.splits prod.splits if_splits)
    from process_lines_mentions [OF run] notin show ?thesis
      by (auto simp: Pundler_init_def)
  qed
  have b: "process_requirements mkset resolver writable p env input_filename lock_filename fs
              = process_requirements mkset resolver' writable p env input_filename lock_filename fs"
    if "\<forall>u e l. l \<noteq> strip raw \<longrightarrow> resolver u e l = resolver' u e l"
    for mkset and resolver resolver' :: "'env resolver" and p env lock_filename
  proof -
    have "resolver u e l = resolver' u e l"
      if "l \<in> set (yield_lines pre @ yield_lines post)" for l u e
      using that notin \<open>\<forall>u e l. l \<noteq> strip raw \<longrightarrow> resolver u e l = resolver' u e l\<close> by metis
    then have "process_lines mkset resolver p env (yield_lines pre @ yield_lines post)
          = process_lines mkset resolver' p env (yield_lines pre @ yield_lines post)"
      by (rule process_lines_cong)
    then show ?thesis by (simp add: process_requirements_def lines)
  qed
  show ?thesis
    apply (rule conjI, rule lines)
    apply (rule conjI)
     apply (intro allI impI, rule a, assumption)
    apply (intro allI impI, rule b, assumption)
    done
qed

theorem skipped_lines_yield_nothing_witness:
  "example_fs ''app.in''
     = Some (''-f x'' @ [NL] @ ''# c'' @ [NL] @ [NL] @ ''flask'' @ [NL] @ ''requests'' @ [NL])
   \<and> readlines (''-f x'' @ [NL] @ ''# c'' @ [NL] @ [NL] @ ''flask'' @ [NL] @ ''requests'' @ [NL])
       = [''-f x'' @ [NL]] @ (''# c'' @ [NL]) # [[NL], ''flask'' @ [NL], ''requests'' @ [NL]]
   \<and> strip (''# c'' @ [NL]) = ''# c''
   \<and> startswith ''# c'' ''#''
   \<and> get_requirements example_fs ''app.in''
       = Inr (yield_lines [''-f x'' @ [NL]] @ yield_lines [[NL], ''flask'' @ [NL], ''requests'' @ [NL]])
   \<and> ''# c'' \<notin> set (args example_used)
   \<and> ''# c'' \<notin> fst ` set (deps example_used)
   \<and> process_requirements remdups example_resolver anywhere (Pundler_init False) 0 ''app.in'' None example_fs
       = process_requirements remdups comment_resolver anywhere (Pundler_init False) 0 ''app.in'' None
           example_fs"
proof -
  have h1: "example_fs ''app.in''
     = Some (''-f x'' @ [NL] @ ''# c'' @ [NL] @ [NL] @ ''flask'' @ [NL] @ ''requests'' @ [NL])"
    by (simp add: example_fs_def)
  have h2: "readlines (''-f x'' @ [NL] @ ''# c'' @ [NL] @ [NL] @ ''flask'' @ [NL] @ ''requests'' @ [NL])
       = [''-f x'' @ [NL]] @ (''# c'' @ [NL]) # [[NL], ''flask'' @ [NL], ''requests'' @ [NL]]"
    by code_simp
  have s: "strip (''# c'' @ [NL]) = ''# c''"
    by code_simp
  have t: "startswith ''# c'' ''#''"
    by (simp add: startswith_def)
  have h3: "strip (''# c'' @ [NL]) = [] \<or> startswith (strip (''# c'' @ [NL])) ''#''"
    using s t by simp
  note c = skipped_lines_yield_nothing
    [where fs = example_fs and input_filename = "''app.in''", OF h1 h2 h3]
  note c1 = c [THEN conjunct1]
  have c2: "''# c'' \<notin> set (args example_used) \<and> ''# c'' \<notin> fst ` set (deps example_used)"
    using c [THEN conjunct2, THEN conjunct1, rule_format, OF example_run] unfolding s .
  have r: "example_resolver u e l = comment_resolver u e l" if "l \<noteq> strip (''# c'' @ [NL])"
    for u e l
    using that unfolding s by (simp add: comment_resolver_def)
  have c3: "process_requirements remdups example_resolver anywhere (Pundler_init False) 0 ''app.in'' None
       example_fs
       = process_requirements remdups comment_resolver anywhere (Pundler_init False) 0 ''app.in'' None
           example_fs"
    by (rule c [THEN conjunct2, THEN conjunct2, rule_format]) (rule r)
  show ?thesis
    by (rule conjI [OF h1 conjI [OF h2 conjI [OF s conjI [OF t conjI [OF c1
          conjI [OF c2 [THEN conjunct1] conjI [OF c2 [THEN conjunct2] c3]]]]]]])
qed


section \<open>The dependency set of one requirement\<close>

text \<open>
  C10: after a requirement line has been resolved, the dependency set stored under it holds
  exactly the \<open>name==version\<close> strings of the packages of the result that are satisfied by an
  installed distribution with \<open>PKG-INFO\<close> or \<open>METADATA\<close>, and of the packages the run has
  installed.  A satisfied package with neither metadata file contributes nothing; and a pin
  of the lock file, active or commented, is always the lowercased form of a stored string.
\<close>

theorem dependency_set_contents:
  assumes "set_like mkset"
    and "\<not> startswith line ''-''"
    and "resolver (upgrade p) env line = Inr (rs, env')"
  shows "\<exists>p'. process_lines mkset resolver p env [line] = Inr (p', env')
    \<and> (\<exists>ds. od_get (deps p') line = Some ds \<and> distinct ds
          \<and> set ds =
              {dep_string pk | pk. pk \<in> set (requirements rs)
                 \<and> (\<exists>d. satisfied_by pk = Some d \<and> (has_PKG_INFO d \<or> has_METADATA d))}
              \<union> {dep_string pk | pk. pk \<in> set (successfully_installed rs)})
    \<and> (\<forall>x inp out. ActivePin x \<in> set (lock_lines p' inp out)
                      \<or> SuppressedPin x \<in> set (lock_lines p' inp out)
          \<longrightarrow> x \<in> pins_of (deps p'))"
proof -
  let ?p' = "p\<lparr>deps := od_set (od_set (deps p) line []) line (mkset (collect_deps rs))\<rparr>"
  have run: "process_lines mkset resolver p env [line] = Inr (?p', env')"
    using assms(2,3) by (rule process_lines_single)
  have get: "od_get (deps ?p') line = Some (mkset (collect_deps rs))"
    by (simp add: od_get_od_set)
  have d: "distinct (mkset (collect_deps rs))"
    and s: "set (mkset (collect_deps rs)) = set (collect_deps rs)"
    using assms(1) by (simp_all add: set_like_def)
  have pins: "\<forall>x inp out. ActivePin x \<in> set (lock_lines ?p' inp out)
                      \<or> SuppressedPin x \<in> set (lock_lines ?p' inp out)
          \<longrightarrow> x \<in> pins_of (deps ?p')"
    using lock_lines_pins by blast
  show ?thesis
    apply (rule exI [of _ ?p'])
    apply (rule conjI, rule run)
    apply (rule conjI)
     apply (rule exI [of _ "mkset (collect_deps rs)"])
     apply (simp only: get d s set_collect_deps simp_thms)
    apply (rule pins)
    done
qed

theorem dependency_set_contents_witness:
  "set_like remdups
   \<and> \<not> startswith ''flask'' ''-''
   \<and> example_resolver (upgrade (Pundler_init False)) 0 ''flask'' = Inr (flask_result, 1)
   \<and> (\<exists>p'. process_lines remdups example_resolver (Pundler_init False) 0 [''flask'']
               = Inr (p', 1)
          \<and> (\<exists>ds. od_get (deps p') ''flask'' = Some ds \<and> distinct ds
                \<and> set ds =
                    {dep_string pk | pk. pk \<in> set (requirements flask_result)
                       \<and> (\<exists>d. satisfied_by pk = Some d \<and> (has_PKG_INFO d \<or> has_METADATA d))}
                    \<union> {dep_string pk | pk. pk \<in> set (successfully_installed flask_result)})
          \<and> (\<forall>x inp out. ActivePin x \<in> set (lock_lines p' inp out)
                            \<or> SuppressedPin x \<in> set (lock_lines p' inp out)
                \<longrightarrow> x \<in> pins_of (deps p')))
   \<and> process_lines remdups example_resolver (Pundler_init False) 0 [''flask'']
       = Inr (example_flask, 1)
   \<and> od_get (deps example_flask) ''flask'' = Some [''Flask==1.0'', ''Werkzeug==0.16'']
   \<and> pkg ''six'' ''1.9'' (Some (dist False False)) \<in> set (requirements flask_result)
   \<and> dep_string (pkg ''six'' ''1.9'' (Some (dist False False))) = ''six==1.9''"
proof -
  have h2: "\<not> startswith ''flask'' ''-''"
    by (simp add: startswith_def)
  have h3: "example_resolver (upgrade (Pundler_init False)) 0 ''flask'' = Inr (flask_result, 1)"
    by (simp add: example_resolver_def flask_result_def)
  note c = dependency_set_contents
    [where resolver = example_resolver and p = "Pundler_init False" and env = 0,
      OF set_like_remdups h2 h3]
  have run: "process_lines remdups example_resolver (Pundler_init False) 0 [''flask'']
       = Inr (example_flask, 1)"
    by code_simp
  have get: "od_get (deps example_flask) ''flask'' = Some [''Flask==1.0'', ''Werkzeug==0.16'']"
    by (simp add: example_flask_def)
  have six: "pkg ''six'' ''1.9'' (Some (dist False False)) \<in> set (requirements flask_result)"
    by (simp add: flask_result_def)
  have out: "dep_string (pkg ''six'' ''1.9'' (Some (dist False False))) = ''six==1.9''"
    by (simp add: dep_string_def pkg_def)
  show ?thesis
    by (rule conjI [OF set_like_remdups conjI [OF h2 conjI [OF h3 conjI [OF c conjI [OF run
          conjI [OF get conjI [OF six out]]]]]]])
qed

section \<open>A requirement line that occurs twice\<close>

text \<open>
  C8: when a requirement line occurs more than once in the input, the mapping from requirement
  lines to dependency sets has exactly one entry for it at the end of the loop, and that entry
  holds the set made from the resolution of the last occurrence.  The run starts on a new
  \<open>Pundler\<close>; \<open>line\<close> at this position is the last occurrence, whatever stands before it.
\<close>

theorem duplicate_line_last_wins:
  assumes "process_lines mkset resolver (Pundler_init u) env (pre @ line # post) = Inr (p', env')"
    and "process_lines mkset resolver (Pundler_init u) env pre = Inr (p1, env1)"
    and "\<not> startswith line ''-''"
    and "resolver (upgrade p1) env1 line = Inr (rs, env2)"
    and "line \<notin> set post"
  shows "count_list (map fst (deps p')) line = 1
    \<and> od_get (deps p') line = Some (mkset (collect_deps rs))"
proof -
  let ?p2 = "p1\<lparr>deps := od_set (od_set (deps p1) line []) line (mkset (collect_deps rs))\<rparr>"
  have rest: "process_lines mkset resolver ?p2 env2 post = Inr (p', env')"
    using assms(1-4) by (simp add: process_lines_append Let_def)
  have "od_get (deps p') line = od_get (deps ?p2) line"
    using rest assms(5) by (rule process_lines_od_get_other)
  then have get: "od_get (deps p') line = Some (mkset (collect_deps rs))"
    by (simp add: od_get_od_set)
  have dist: "distinct (map fst (deps p'))"
    using assms(1) by (rule process_lines_distinct) (simp add: Pundler_init_def)
  have mem: "line \<in> set (map fst (deps p'))"
    using get dist od_get_Some_iff [OF dist, of line] by force
  from dist mem have "count_list (map fst (deps p')) line = 1"
    by (simp add: count_list_distinct)
  with get show ?thesis by simp
qed

theorem duplicate_line_last_wins_witness:
  "process_lines remdups stateful_resolver (Pundler_init False) 0 ([''a'', ''b''] @ ''a'' # [])
     = Inr (dup_after, 3)
   \<and> process_lines remdups stateful_resolver (Pundler_init False) 0 [''a'', ''b'']
       = Inr (dup_before, 2)
   \<and> \<not> startswith ''a'' ''-''
   \<and> stateful_resolver (upgrade dup_before) 2 ''a''
       = Inr (\<lparr> requirements = [], successfully_installed = [pkg ''a'' ''2'' None] \<rparr>, 3)
   \<and> ''a'' \<notin> set []
   \<and> od_get (deps dup_before) ''a'' = Some [''a==1'']
   \<and> count_list (map fst (deps dup_after)) ''a'' = 1
   \<and> od_get (deps dup_after) ''a''
       = Some (remdups (collect_deps
           \<lparr> requirements = [], successfully_installed = [pkg ''a'' ''2'' None] \<rparr>))
   \<and> remdups (collect_deps \<lparr> requirements = [], successfully_installed = [pkg ''a'' ''2'' None] \<rparr>)
       = [''a==2'']"
proof -
  have h1: "process_lines remdups stateful_resolver (Pundler_init False) 0
              ([''a'', ''b''] @ ''a'' # []) = Inr (dup_after, 3)"
    by code_simp
  have h2: "process_lines remdups stateful_resolver (Pundler_init False) 0 [''a'', ''b'']
              = Inr (dup_before, 2)"
    by code_simp
  have h3: "\<not> startswith ''a'' ''-''"
    by (simp add: startswith_def)
  have h4: "stateful_resolver (upgrade dup_before) 2 ''a''
       = Inr (\<lparr> requirements = [], successfully_installed = [pkg ''a'' ''2'' None] \<rparr>, 3)"
    by (simp add: stateful_resolver_def)
  have h5: "''a'' \<notin> set []"
    by simp
  have b: "od_get (deps dup_before) ''a'' = Some [''a==1'']"
    by (simp add: dup_before_def)
  note c = duplicate_line_last_wins [OF h1 h2 h3 h4 h5]
  have e: "remdups (collect_deps
             \<lparr> requirements = [], successfully_installed = [pkg ''a'' ''2'' None] \<rparr>) = [''a==2'']"
    by (simp add: collect_deps_def dep_string_def pkg_def)
  show ?thesis
    by (rule conjI [OF h1 conjI [OF h2 conjI [OF h3 conjI [OF h4 conjI [OF h5 conjI [OF b
          conjI [OF c [THEN conjunct1] conjI [OF c [THEN conjunct2] e]]]]]]]])
qed


end
